theory Spec2Isabelle
  imports Complex_Main "HOL-Library.Sublist" "HOL-Library.Product_Lexorder"
begin

section \<open>Strengths\<close>

text \<open>
  The strength of a token is a Python float: a finite number, an infinity or NaN.
  The filters do no arithmetic on strengths; they compare them, through the
  built-in sort, with \<open><\<close>. Every comparison with NaN is false, so on floats \<open><\<close>
  is not a total order. The two zeros compare as equal and are one value here.
  \<open>float_le\<close> is Python's \<open><=\<close>, used to state what sorted means.
\<close>

datatype pyfloat = NegInf | Fin real | PosInf | NaN

fun float_lt :: "pyfloat \<Rightarrow> pyfloat \<Rightarrow> bool" where
  "float_lt NaN y = False"
| "float_lt x NaN = False"
| "float_lt x NegInf = False"
| "float_lt NegInf y = True"
| "float_lt PosInf y = False"
| "float_lt x PosInf = True"
| "float_lt (Fin a) (Fin b) = (a < b)"

fun float_le :: "pyfloat \<Rightarrow> pyfloat \<Rightarrow> bool" where
  "float_le NaN y = False"
| "float_le x NaN = False"
| "float_le NegInf y = True"
| "float_le x NegInf = False"
| "float_le x PosInf = True"
| "float_le PosInf y = False"
| "float_le (Fin a) (Fin b) = (a \<le> b)"

section \<open>Tokens\<close>

text \<open>
  A token (\<open>TokenInterface\<close> of \<open>sanipro/abc.py\<close>) carries a name and a
  strength. The filters only read \<open>prompt.name\<close> and \<open>prompt.strength\<close>. The record
  is extensible: whatever else a concrete token class carries sits in the \<open>more\<close>
  part, so two tokens with the same name and strength need not be the same token.
\<close>

record token =
  name :: string
  strength :: pyfloat

text \<open>
  Modelled from the spec: \<open>TokenInterface.replace\<close> (\<open>sanipro/abc.py\<close>) is missing
  from the sources. The spec says a token "supports producing a modified copy
  (e.g., replaced name) without mutating the original", and that Mask replaces
  the name "preserving weight".
\<close>

definition replace :: "'z token_scheme \<Rightarrow> string \<Rightarrow> 'z token_scheme" where
  "replace prompt replace_to = prompt\<lparr>name := replace_to\<rparr>"

text \<open>Python's \<open>a in b\<close> on two strings: \<open>a\<close> occurs in \<open>b\<close> as a contiguous run.\<close>

abbreviation str_in :: "string \<Rightarrow> string \<Rightarrow> bool" where
  "str_in a b \<equiv> sublist a b"

section \<open>filters.py: mask and exclude\<close>

text \<open>
  \<open>mask\<close>: the inner \<open>for ... else\<close> over \<open>excludes\<close> appends the replaced token at the
  first exclude string found in the name (\<open>break\<close>), and the token itself when the
  loop runs to its end (\<open>else\<close>).
\<close>

fun mask_inner :: "'z token_scheme \<Rightarrow> string list \<Rightarrow> string \<Rightarrow> 'z token_scheme" where
  "mask_inner prompt [] replace_to = prompt"
| "mask_inner prompt (excluded # rest) replace_to =
     (if str_in excluded (name prompt) then replace prompt replace_to
      else mask_inner prompt rest replace_to)"

fun filters_mask ::
  "'z token_scheme list \<Rightarrow> string list \<Rightarrow> string \<Rightarrow> 'z token_scheme list" where
  "filters_mask [] excludes replace_to = []"
| "filters_mask (prompt # prompts) excludes replace_to =
     mask_inner prompt excludes replace_to # filters_mask prompts excludes replace_to"

text \<open>
  \<open>exclude\<close>: the inner \<open>for ... else\<close> appends the token at the first exclude
  string that is not in the name (\<open>break\<close>); when the loop runs to its end the
  \<open>else\<close> branch is \<open>continue\<close> and nothing is appended. \<open>exclude_inner\<close> tells
  whether the token was appended.
\<close>

fun exclude_inner :: "'z token_scheme \<Rightarrow> string list \<Rightarrow> bool" where
  "exclude_inner prompt [] = False"
| "exclude_inner prompt (excluded # rest) =
     (if \<not> str_in excluded (name prompt) then True else exclude_inner prompt rest)"

fun filters_exclude :: "'z token_scheme list \<Rightarrow> string list \<Rightarrow> 'z token_scheme list" where
  "filters_exclude [] excludes = []"
| "filters_exclude (prompt # prompts) excludes =
     (if exclude_inner prompt excludes then prompt # filters_exclude prompts excludes
      else filters_exclude prompts excludes)"

section \<open>filters/exclude.py: ExcludeCommand\<close>

text \<open>
  \<open>[token for token in prompt if token.name not in self.excludes]\<close>: here \<open>in\<close> is
  membership of the name in the sequence of exclude strings, by equality.
\<close>

definition ExcludeCommand_execute ::
  "string list \<Rightarrow> 'z token_scheme list \<Rightarrow> 'z token_scheme list" where
  "ExcludeCommand_execute excludes prompt =
     filter (\<lambda>token. name token \<notin> set excludes) prompt"

section \<open>filters.py: collect_same_prompt, sort and unique\<close>

text \<open>
  Python's \<open>dict\<close> keeps its keys in insertion order, and \<open>sort\<close> and \<open>unique\<close> walk
  \<open>u.items()\<close> in that order, so the dictionary is an association list: one entry
  per key, new keys added at the end. \<open>collect_step\<close> is the body of the loop of
  \<open>collect_same_prompt\<close>.
\<close>

type_synonym 'z groups = "(string \<times> 'z token_scheme list) list"

definition collect_step :: "'z groups \<Rightarrow> 'z token_scheme \<Rightarrow> 'z groups" where
  "collect_step u prompt =
     (if name prompt \<in> set (map fst u)
      then map (\<lambda>(k, v). if k = name prompt then (k, v @ [prompt]) else (k, v)) u
      else u @ [(name prompt, [prompt])])"

fun collect_loop :: "'z token_scheme list \<Rightarrow> 'z groups \<Rightarrow> 'z groups" where
  "collect_loop [] u = u"
| "collect_loop (prompt # prompts) u = collect_loop prompts (collect_step u prompt)"

definition collect_same_prompt :: "'z token_scheme list \<Rightarrow> 'z groups" where
  "collect_same_prompt prompts = collect_loop prompts []"

text \<open>
  \<open>v.sort(key=..., reverse=reverse)\<close> is the built-in sort of CPython
  (\<open>listsort\<close> in \<open>listobject.c\<close>). It compares keys with \<open><\<close> only. On a list
  of fewer than 64 elements it finds the run the list starts with (\<open>count_run\<close>:
  either each element is not less than the one before it, or each element is less
  than the one before it, and then the run is reversed in place) and inserts the
  remaining elements one by one into the sorted part, by binary search
  (\<open>binarysort\<close>). With \<open>reverse=True\<close> the list is reversed before and after, so
  that elements with equal keys keep their order.

  On a longer list the built-in sort merges several such runs. When \<open><\<close> is a
  total order on the keys the result is the same, since a stable sort by a key has
  one possible result; all statements below about lists of any length are made for
  such keys. When some key is NaN the result depends on the comparisons made:
  \<open>[2.0, nan, 1.0]\<close> is one run for \<open>count_run\<close> and is left as it is.
\<close>

fun asc_run :: "('a \<Rightarrow> 'a \<Rightarrow> bool) \<Rightarrow> 'a \<Rightarrow> 'a list \<Rightarrow> 'a list \<times> 'a list" where
  "asc_run lt prev [] = ([], [])"
| "asc_run lt prev (x # xs) =
     (if lt x prev then ([], x # xs)
      else (let (run, rest) = asc_run lt x xs in (x # run, rest)))"

fun desc_run :: "('a \<Rightarrow> 'a \<Rightarrow> bool) \<Rightarrow> 'a \<Rightarrow> 'a list \<Rightarrow> 'a list \<times> 'a list" where
  "desc_run lt prev [] = ([], [])"
| "desc_run lt prev (x # xs) =
     (if lt x prev then (let (run, rest) = desc_run lt x xs in (x # run, rest))
      else ([], x # xs))"

text \<open>
  The binary search of \<open>binarysort\<close>: \<open>p = l + ((r - l) >> 1)\<close>, then \<open>r = p\<close> when the
  pivot is less than the element at \<open>p\<close> and \<open>l = p + 1\<close> otherwise, while \<open>l < r\<close>.
  The pivot goes to position \<open>l\<close>.
\<close>

function bsearch :: "('a \<Rightarrow> 'a \<Rightarrow> bool) \<Rightarrow> 'a \<Rightarrow> 'a list \<Rightarrow> nat \<Rightarrow> nat \<Rightarrow> nat" where
  "bsearch lt pivot xs l r =
     (if l < r
      then (let p = l + (r - l) div 2
            in if lt pivot (xs ! p) then bsearch lt pivot xs l p
               else bsearch lt pivot xs (p + 1) r)
      else l)"
  by pat_completeness auto
termination
  by (relation "measure (\<lambda>(lt, pivot, xs, l, r). r - l)") auto

declare bsearch.simps [simp del]

fun binarysort :: "('a \<Rightarrow> 'a \<Rightarrow> bool) \<Rightarrow> 'a list \<Rightarrow> 'a list \<Rightarrow> 'a list" where
  "binarysort lt pre [] = pre"
| "binarysort lt pre (pivot # rest) =
     (let l = bsearch lt pivot pre 0 (length pre)
      in binarysort lt (take l pre @ pivot # drop l pre) rest)"

fun listsort :: "('a \<Rightarrow> 'a \<Rightarrow> bool) \<Rightarrow> 'a list \<Rightarrow> 'a list" where
  "listsort lt (a # b # xs) =
     (if lt b a
      then (let (run, rest) = desc_run lt b xs in binarysort lt (rev (a # b # run)) rest)
      else (let (run, rest) = asc_run lt b xs in binarysort lt (a # b # run) rest))"
| "listsort lt xs = xs"

definition list_sort :: "('a \<Rightarrow> pyfloat) \<Rightarrow> bool \<Rightarrow> 'a list \<Rightarrow> 'a list" where
  "list_sort key reverse v =
     (let lt = (\<lambda>x y. float_lt (key x) (key y))
      in if reverse then rev (listsort lt (rev v)) else listsort lt v)"



text \<open>
  Exceptions are values: a function that can raise returns \<open>error + 'a\<close>.
  \<open>NotImplementedError\<close> carries the value of \<open>self.filter\<close> that its message
  names, \<open>KeyError\<close> the key that was looked up.
\<close>

datatype error =
    NotImplementedError "string option"
  | KeyError string
  | IndexError
  | ConfigurationError

text \<open>\<open>v.pop(0)\<close> raises \<open>IndexError\<close> on an empty list.\<close>

fun unique_loop ::
  "'z groups \<Rightarrow> bool \<Rightarrow> 'z token_scheme list \<Rightarrow> error + 'z token_scheme list" where
  "unique_loop [] reverse prompts = Inr prompts"
| "unique_loop ((k, v) # u) reverse prompts =
     (case list_sort strength reverse v of
        [] \<Rightarrow> Inl IndexError
      | x # _ \<Rightarrow> unique_loop u reverse (prompts @ [x]))"

definition filters_unique ::
  "'z token_scheme list \<Rightarrow> bool \<Rightarrow> error + 'z token_scheme list" where
  "filters_unique prompts reverse = unique_loop (collect_same_prompt prompts) reverse []"

text \<open>
  The floats other than NaN are totally ordered: \<open>rank\<close> maps them into the pairs
  of an integer and a real, ordered lexicographically, the infinities below and
  above every finite number. It is used in the proofs only.
\<close>

fun rank :: "pyfloat \<Rightarrow> int \<times> real" where
  "rank NegInf = (- 1, 0)"
| "rank (Fin a) = (0, a)"
| "rank PosInf = (1, 0)"
| "rank NaN = (2, 0)"

text \<open>
  The names of a token list in the order in which they are first seen, used to
  state what \<open>sort\<close> and \<open>unique\<close> return.
\<close>

definition first_seen :: "'a list \<Rightarrow> 'a list" where
  "first_seen xs = rev (remdups (rev xs))"

section \<open>commandline/commands.py: Commands.get_pipeline\<close>

text \<open>
  The attributes of \<open>Commands\<close> that \<open>get_pipeline\<close> and the closures of
  \<open>command_funcs\<close> read. \<open>mask\<close>, \<open>filter\<close> and \<open>value\<close> carry a prime, since
  these names are taken.
\<close>

record Commands =
  mask' :: "string list"
  exclude :: "string list"
  input_delimiter :: string
  output_delimiter :: string
  roundup :: int
  replace_to :: string
  filter' :: "string option"
  use_parser_v2 :: bool
  reverse :: bool
  seed :: "int option"
  value' :: "real option"
  similar_method :: "string option"
  sort_all_method :: "string option"

text \<open>
  A command instance is its class with the parameters bound by its constructor.
  \<open>SimilarCommand.create_from_cmd\<close> and \<open>SortAllCommand.create_from_cmd\<close> receive
  the whole \<open>Commands\<close> object and the reverse flag.
\<close>

datatype command =
    ExcludeCommand "string list"
  | MaskCommand "string list" string
  | RandomCommand "int option"
  | ResetCommand "real option"
  | RoundUpCommand int
  | SimilarCommand Commands bool
  | SortAllCommand Commands bool
  | SortCommand bool
  | UniqueCommand bool

datatype command_class =
    ExcludeCommand_class
  | MaskCommand_class
  | RandomCommand_class
  | ResetCommand_class
  | RoundUpCommand_class
  | SimilarCommand_class
  | SortAllCommand_class
  | SortCommand_class
  | UniqueCommand_class

fun class_of :: "command \<Rightarrow> command_class" where
  "class_of (ExcludeCommand _) = ExcludeCommand_class"
| "class_of (MaskCommand _ _) = MaskCommand_class"
| "class_of (RandomCommand _) = RandomCommand_class"
| "class_of (ResetCommand _) = ResetCommand_class"
| "class_of (RoundUpCommand _) = RoundUpCommand_class"
| "class_of (SimilarCommand _ _) = SimilarCommand_class"
| "class_of (SortAllCommand _ _) = SortAllCommand_class"
| "class_of (SortCommand _) = SortCommand_class"
| "class_of (UniqueCommand _) = UniqueCommand_class"

text \<open>The tuple \<open>Commands.command_classes\<close>, in the order of the source.\<close>

definition command_classes :: "command_class list" where
  "command_classes =
     [ExcludeCommand_class, MaskCommand_class, RandomCommand_class, ResetCommand_class,
      RoundUpCommand_class, SimilarCommand_class, SortAllCommand_class, SortCommand_class,
      UniqueCommand_class]"

text \<open>
  The tuple \<open>command_funcs\<close> of \<open>get_pipeline\<close>, in the order of the source; each
  closure reads \<open>self\<close> when it is called.
\<close>

definition command_funcs :: "(Commands \<Rightarrow> command) list" where
  "command_funcs =
     [\<lambda>self. ExcludeCommand (exclude self),
      \<lambda>self. MaskCommand (mask' self) (replace_to self),
      \<lambda>self. RandomCommand (seed self),
      \<lambda>self. ResetCommand (value' self),
      \<lambda>self. SimilarCommand self (reverse self),
      \<lambda>self. SortAllCommand self (reverse self),
      \<lambda>self. SortCommand (reverse self),
      \<lambda>self. UniqueCommand (reverse self)]"

text \<open>
  \<open>dict(pairs)\<close>: the pairs are stored one after the other, a later pair
  replacing an earlier one with the same key. \<open>zip\<close> stops at the shorter of its
  two arguments, in Python as in HOL.
\<close>

definition dict :: "('k \<times> 'v) list \<Rightarrow> ('k \<rightharpoonup> 'v)" where
  "dict pairs = fold (\<lambda>(k, v) m. m(k \<mapsto> v)) pairs Map.empty"

text \<open>\<open>self.filter in command_ids\<close>: \<open>None\<close> is not among the identifiers.\<close>

fun opt_in :: "string option \<Rightarrow> string list \<Rightarrow> bool" where
  "opt_in None ids = False"
| "opt_in (Some f) ids = (f \<in> set ids)"

record Delimiter =
  sep_input :: string
  sep_output :: string

datatype pipeline_class = PromptPipelineV1 | PromptPipelineV2

record PromptPipeline =
  pipeline_cls :: pipeline_class
  delimiter :: Delimiter
  commands :: "command list"

definition get_delimiter :: "Commands \<Rightarrow> Delimiter" where
  "get_delimiter self =
     \<lparr>sep_input = input_delimiter self, sep_output = output_delimiter self\<rparr>"

text \<open>
  Modelled from the spec: \<open>Delimiter.create_pipeline\<close> and
  \<open>PromptPipeline.append_command\<close> (\<open>sanipro/common.py\<close>) are missing from the
  sources. The spec says the pipeline "owns an ordered list of Command instances" and that
  \<open>append_command(cmd)\<close> "adds to the end of the execution list"; a new pipeline
  has no command yet.
\<close>

definition create_pipeline :: "Delimiter \<Rightarrow> pipeline_class \<Rightarrow> PromptPipeline" where
  "create_pipeline delim cls = \<lparr>pipeline_cls = cls, delimiter = delim, commands = []\<rparr>"

definition append_command :: "PromptPipeline \<Rightarrow> command \<Rightarrow> PromptPipeline" where
  "append_command pipeline cmd = pipeline\<lparr>commands := commands pipeline @ [cmd]\<rparr>"

definition get_pipeline_from :: "Commands \<Rightarrow> bool \<Rightarrow> PromptPipeline" where
  "get_pipeline_from self v2 =
     (let delim = get_delimiter self
      in if \<not> v2 then create_pipeline delim PromptPipelineV1
         else create_pipeline delim PromptPipelineV2)"

text \<open>
  Modelled from the spec: the constructor of \<open>RoundUpCommand\<close>
  (\<open>sanipro/filters/roundup.py\<close>) is missing from the sources. The spec says of
  RoundUp "negative N rejected as a configuration error", and of a
  configuration error that it is "detected before any Command executes".
\<close>

definition RoundUpCommand_init :: "int \<Rightarrow> error + command" where
  "RoundUpCommand_init ndigits =
     (if ndigits < 0 then Inl ConfigurationError else Inr (RoundUpCommand ndigits))"

text \<open>
  \<open>Commands.get_pipeline\<close>. The class attribute \<open>command_id\<close> of each command
  class is set in the modules of the commands, so the assignment of identifiers
  to classes is the parameter \<open>command_id\<close>. A \<open>raise\<close> ends the function with \<open>Inl\<close>;
  \<open>command_map[self.filter]\<close> raises \<open>KeyError\<close> for a key that is not there.
\<close>

definition get_pipeline ::
  "(command_class \<Rightarrow> string) \<Rightarrow> Commands \<Rightarrow> error + PromptPipeline" where
  "get_pipeline command_id self =
     (let command_ids = map command_id command_classes;
          command_map = dict (zip command_ids command_funcs)
      in if use_parser_v2 self \<and> opt_in (filter' self) command_ids
         then Inl (NotImplementedError (filter' self))
         else
           (case RoundUpCommand_init (roundup self) of
              Inl e \<Rightarrow> Inl e
            | Inr rounding \<Rightarrow>
                (let pipeline =
                       append_command (get_pipeline_from self (use_parser_v2 self)) rounding
                 in case filter' self of
                      None \<Rightarrow> Inr pipeline
                    | Some f \<Rightarrow>
                        (case command_map f of
                           None \<Rightarrow> Inl (KeyError f)
                         | Some lambd \<Rightarrow> Inr (append_command pipeline (lambd self))))))"

text \<open>
  An assignment of identifiers to the command classes, one distinct name per
  class, and the default attribute values of the class \<open>Commands\<close>, for running
  \<open>get_pipeline\<close> on concrete configurations.
\<close>

fun sample_command_id :: "command_class \<Rightarrow> string" where
  "sample_command_id ExcludeCommand_class = ''exclude''"
| "sample_command_id MaskCommand_class = ''mask''"
| "sample_command_id RandomCommand_class = ''random''"
| "sample_command_id ResetCommand_class = ''reset''"
| "sample_command_id RoundUpCommand_class = ''roundup''"
| "sample_command_id SimilarCommand_class = ''similar''"
| "sample_command_id SortAllCommand_class = ''sort-all''"
| "sample_command_id SortCommand_class = ''sort''"
| "sample_command_id UniqueCommand_class = ''unique''"

definition default_commands :: Commands where
  "default_commands =
     \<lparr>mask' = [], exclude = [], input_delimiter = '','', output_delimiter = '', '',
      roundup = 2, replace_to = [], filter' = None, use_parser_v2 = False,
      reverse = False, seed = None, value' = None, similar_method = None,
      sort_all_method = None\<rparr>"

section \<open>cli.py: app\<close>

text \<open>
  What a block of statements leaves behind: the lines it logged and the exception
  in flight when it ended, if any. \<open>SystemExit\<close> and \<open>KeyboardInterrupt\<close> derive
  from \<open>BaseException\<close> only; every other exception here derives from \<open>Exception\<close>
  and carries its message.
\<close>

datatype exc = Exception string | KeyboardInterrupt | SystemExit int

record run =
  logged :: "string list"
  raised :: "exc option"

text \<open>\<open>except Exception as e: logger.exception(f"error: {e}")\<close>\<close>

fun except_Exception :: "run \<Rightarrow> run" where
  "except_Exception r =
     (case raised r of
        Some (Exception msg) \<Rightarrow> \<lparr>logged = logged r @ [''error: '' @ msg], raised = None\<rparr>
      | _ \<Rightarrow> r)"

text \<open>
  \<open>finally: sys.exit(1)\<close>: the clause runs however the \<open>try\<close> statement ended, and
  the \<open>SystemExit\<close> it raises replaces an exception in flight.
\<close>

definition finally_sys_exit :: "int \<Rightarrow> run \<Rightarrow> run" where
  "finally_sys_exit status r = r\<lparr>raised := Some (SystemExit status)\<rparr>"

text \<open>
  \<open>app\<close>: the body of the \<open>try\<close> block calls into the other modules (the
  argument parser, the hooks, the runner), so what it leaves behind is the
  argument.
\<close>

definition app :: "run \<Rightarrow> run" where
  "app try_body = finally_sys_exit 1 (except_Exception try_body)"

section \<open>Properties of mask and exclude\<close>

lemma exclude_inner_iff:
  "exclude_inner prompt excludes \<longleftrightarrow> \<not> (\<forall>e \<in> set excludes. str_in e (name prompt))"
  by (induction excludes) simp_all

lemma mask_inner_eq:
  "mask_inner prompt excludes new_name =
     (if \<exists>e \<in> set excludes. str_in e (name prompt) then replace prompt new_name else prompt)"
  by (induction excludes) simp_all

text \<open>
  The doctests of \<open>mask\<close> and \<open>exclude\<close> in \<open>filters.py\<close>: both functions look
  for the exclude string inside the name.
\<close>

lemma filters_mask_doctest:
  "filters_mask [\<lparr>name = ''white hair'', strength = Fin 1.2\<rparr>,
                 \<lparr>name = ''thighhighs'', strength = Fin 1.0\<rparr>] [''white''] ''%%%''
   = [\<lparr>name = ''%%%'', strength = Fin 1.2\<rparr>, \<lparr>name = ''thighhighs'', strength = Fin 1.0\<rparr>]"
  by (simp add: replace_def sublist_code(3))

lemma filters_exclude_doctest:
  "filters_exclude [\<lparr>name = ''white hair'', strength = Fin 1.2\<rparr>,
                    \<lparr>name = ''thighhighs'', strength = Fin 1.0\<rparr>] [''white'']
   = [\<lparr>name = ''thighhighs'', strength = Fin 1.0\<rparr>]"
  by (simp add: sublist_code(3))

text \<open>
  C2. On \<open>[("white hair", 1.2), ("thighhighs", 1.0)]\<close> with the exclude strings
  \<open>["white"]\<close>, Mask with the replacement \<open>"%%%"\<close> is to return
  \<open>[("%%%", 1.2), ("thighhighs", 1.0)]\<close> and Exclude is to return
  \<open>[("thighhighs", 1.0)]\<close>, the match being by substring. The functions \<open>mask\<close>
  and \<open>exclude\<close> of \<open>filters.py\<close> do so (the two doctest lemmas above), but
  \<open>ExcludeCommand.execute\<close>, whose docstring shows the same example, tests
  whether the whole name is one of the exclude strings: \<open>"white hair"\<close> is not
  \<open>"white"\<close>, and it returns both tokens.
\<close>

theorem ExcludeCommand_execute_keeps_white_hair:
  "ExcludeCommand_execute [''white'']
     [\<lparr>name = ''white hair'', strength = Fin 1.2\<rparr>, \<lparr>name = ''thighhighs'', strength = Fin 1.0\<rparr>]
   = [\<lparr>name = ''white hair'', strength = Fin 1.2\<rparr>, \<lparr>name = ''thighhighs'', strength = Fin 1.0\<rparr>]"
  by (simp add: ExcludeCommand_execute_def)

text \<open>
  With no exclude string, \<open>ExcludeCommand.execute\<close> returns its input, and the
  function \<open>exclude\<close> of \<open>filters.py\<close> returns the empty list: its inner loop does
  not run, so the \<open>else\<close> branch skips every token.
\<close>

lemma ExcludeCommand_execute_no_excludes:
  "ExcludeCommand_execute [] prompt = prompt"
  by (simp add: ExcludeCommand_execute_def)

lemma filters_exclude_no_excludes:
  "filters_exclude prompts [] = []"
  by (induction prompts) simp_all

text \<open>
  C3. Exclude with an empty exclude-set is to return the token sequence unchanged.
  \<open>ExcludeCommand.execute\<close> does (\<open>ExcludeCommand_execute_no_excludes\<close>); the
  function \<open>exclude\<close> of \<open>filters.py\<close> drops every token instead.
\<close>

theorem filters_exclude_empty_excludes_drops_all:
  "filters_exclude
     [\<lparr>name = ''white hair'', strength = Fin 1.2\<rparr>, \<lparr>name = ''thighhighs'', strength = Fin 1.0\<rparr>] []
   = []"
  by simp

text \<open>
  C9. For a non-empty list of exclude strings, the function \<open>exclude\<close> of
  \<open>filters.py\<close> removes a token if and only if every exclude string occurs in the
  token's name: the tokens it returns are those with an exclude string that does
  not occur in the name, in their order.
\<close>

theorem filters_exclude_removes_iff_all_match:
  "excludes \<noteq> [] \<Longrightarrow>
   filters_exclude prompts excludes =
     filter (\<lambda>prompt. \<not> (\<forall>e \<in> set excludes. str_in e (name prompt))) prompts"
  by (induction prompts) (simp_all add: exclude_inner_iff)

theorem filters_exclude_removes_iff_all_match_witness:
  "[''white'', ''hair''] \<noteq> []
   \<and> filters_exclude
       [\<lparr>name = ''white hair'', strength = Fin 1.2\<rparr>, \<lparr>name = ''white dress'', strength = Fin 1.0\<rparr>,
        \<lparr>name = ''thighhighs'', strength = Fin 1.0\<rparr>] [''white'', ''hair'']
     = filter (\<lambda>prompt. \<not> (\<forall>e \<in> set [''white'', ''hair'']. str_in e (name prompt)))
         [\<lparr>name = ''white hair'', strength = Fin 1.2\<rparr>, \<lparr>name = ''white dress'', strength = Fin 1.0\<rparr>,
          \<lparr>name = ''thighhighs'', strength = Fin 1.0\<rparr>]
   \<and> filters_exclude
       [\<lparr>name = ''white hair'', strength = Fin 1.2\<rparr>, \<lparr>name = ''white dress'', strength = Fin 1.0\<rparr>,
        \<lparr>name = ''thighhighs'', strength = Fin 1.0\<rparr>] [''white'', ''hair'']
     = [\<lparr>name = ''white dress'', strength = Fin 1.0\<rparr>, \<lparr>name = ''thighhighs'', strength = Fin 1.0\<rparr>]"
proof -
  have ne: "[''white'', ''hair''] \<noteq> []" by simp
  show ?thesis
    using filters_exclude_removes_iff_all_match [OF ne,
        of "[\<lparr>name = ''white hair'', strength = Fin 1.2\<rparr>, \<lparr>name = ''white dress'', strength = Fin 1.0\<rparr>,
             \<lparr>name = ''thighhighs'', strength = Fin 1.0\<rparr>]"]
    by (simp add: sublist_code(3))
qed

section \<open>Properties of collect_same_prompt, sort and unique\<close>

lemma first_seen_snoc:
  "first_seen (xs @ [x]) = (if x \<in> set xs then first_seen xs else first_seen xs @ [x])"
  by (simp add: first_seen_def)

lemma set_first_seen: "set (first_seen xs) = set xs"
  by (simp add: first_seen_def)

lemma distinct_first_seen: "distinct (first_seen xs)"
  by (simp add: first_seen_def)

lemma collect_loop_append:
  "collect_loop (ps @ qs) u = collect_loop qs (collect_loop ps u)"
  by (induction ps arbitrary: u) simp_all

lemma collect_same_prompt_snoc:
  "collect_same_prompt (ps @ [p]) = collect_step (collect_same_prompt ps) p"
  by (simp add: collect_same_prompt_def collect_loop_append)

text \<open>
  The dictionary built by \<open>collect_same_prompt\<close>: one entry per name, in the order
  in which the names are first seen, holding the tokens of that name in their
  order.
\<close>

lemma collect_same_prompt_groups:
  "collect_same_prompt ps =
     map (\<lambda>n. (n, filter (\<lambda>p. name p = n) ps)) (first_seen (map name ps))"
proof (induction ps rule: rev_induct)
  case Nil
  show ?case by (simp add: collect_same_prompt_def first_seen_def)
next
  case (snoc p ps)
  let ?ns = "first_seen (map name ps)"
  have keys: "map fst (collect_same_prompt ps) = ?ns"
    by (simp add: snoc.IH comp_def)
  show ?case
  proof (cases "name p \<in> set (map name ps)")
    case True
    then have "name p \<in> set (map fst (collect_same_prompt ps))"
      by (simp add: keys set_first_seen)
    then have "collect_step (collect_same_prompt ps) p =
        map (\<lambda>(k, v). if k = name p then (k, v @ [p]) else (k, v)) (collect_same_prompt ps)"
      by (simp add: collect_step_def)
    also have "\<dots> = map (\<lambda>n. (n, filter (\<lambda>q. name q = n) (ps @ [p]))) ?ns"
      by (simp add: snoc.IH)
    finally show ?thesis
      using True by (simp add: collect_same_prompt_snoc first_seen_snoc)
  next
    case False
    then have notin: "name p \<notin> set (map fst (collect_same_prompt ps))"
      by (simp add: keys set_first_seen)
    have none: "filter (\<lambda>q. name q = name p) ps = []"
      using False by (auto simp: filter_empty_conv image_iff)
    have same: "map (\<lambda>n. (n, filter (\<lambda>q. name q = n) (ps @ [p]))) ?ns
              = map (\<lambda>n. (n, filter (\<lambda>q. name q = n) ps)) ?ns"
      using False by (auto simp: set_first_seen)
    have "collect_step (collect_same_prompt ps) p = collect_same_prompt ps @ [(name p, [p])]"
      using notin by (simp add: collect_step_def)
    then show ?thesis
      using False none same
      by (simp add: collect_same_prompt_snoc first_seen_snoc snoc.IH)
  qed
qed

text \<open>
  The built-in sort on keys that \<open>lt\<close> orders totally: \<open>rk\<close> maps the elements
  into a linear order that \<open>lt\<close> agrees with. The result is sorted, and the
  elements of one rank keep their order.
\<close>

lemma asc_run_append: "asc_run lt prev xs = (run, rest) \<Longrightarrow> xs = run @ rest"
  by (induction xs arbitrary: prev run rest) (auto split: if_splits prod.splits)

lemma desc_run_append: "desc_run lt prev xs = (run, rest) \<Longrightarrow> xs = run @ rest"
  by (induction xs arbitrary: prev run rest) (auto split: if_splits prod.splits)

lemma asc_run_sorted:
  fixes rk :: "'a \<Rightarrow> 'r::linorder"
  assumes "\<forall>x \<in> set (prev # xs). \<forall>y \<in> set (prev # xs). lt x y = (rk x < rk y)"
    and "asc_run lt prev xs = (run, rest)"
  shows "sorted (map rk (prev # run))"
  using assms
proof (induction xs arbitrary: prev run rest)
  case Nil
  then show ?case by simp
next
  case (Cons x xs)
  show ?case
  proof (cases "lt x prev")
    case True
    with Cons.prems(2) show ?thesis by simp
  next
    case False
    then obtain run' where r: "asc_run lt x xs = (run', rest)" and run: "run = x # run'"
      using Cons.prems(2) by (auto split: prod.splits)
    have H: "\<forall>a \<in> set (x # xs). \<forall>b \<in> set (x # xs). lt a b = (rk a < rk b)"
      using Cons.prems(1) by simp
    have IH: "sorted (map rk (x # run'))" by (rule Cons.IH [OF H r])
    have "rk prev \<le> rk x" using False Cons.prems(1) by auto
    with IH show ?thesis by (auto simp: run)
  qed
qed

lemma desc_run_sorted:
  fixes rk :: "'a \<Rightarrow> 'r::linorder"
  assumes "\<forall>x \<in> set (prev # xs). \<forall>y \<in> set (prev # xs). lt x y = (rk x < rk y)"
    and "desc_run lt prev xs = (run, rest)"
  shows "sorted_wrt (\<lambda>a b. rk b < rk a) (prev # run)"
  using assms
proof (induction xs arbitrary: prev run rest)
  case Nil
  then show ?case by simp
next
  case (Cons x xs)
  show ?case
  proof (cases "lt x prev")
    case False
    with Cons.prems(2) show ?thesis by simp
  next
    case True
    then obtain run' where r: "desc_run lt x xs = (run', rest)" and run: "run = x # run'"
      using Cons.prems(2) by (auto split: prod.splits)
    have H: "\<forall>a \<in> set (x # xs). \<forall>b \<in> set (x # xs). lt a b = (rk a < rk b)"
      using Cons.prems(1) by simp
    have IH: "sorted_wrt (\<lambda>a b. rk b < rk a) (x # run')" by (rule Cons.IH [OF H r])
    have "rk x < rk prev" using True Cons.prems(1) by auto
    with IH show ?thesis by (auto simp: run)
  qed
qed

lemma filter_rev_strict:
  fixes rk :: "'a \<Rightarrow> 'r::linorder"
  shows "sorted_wrt (\<lambda>a b. rk b < rk a) ys \<Longrightarrow>
    filter (\<lambda>y. rk y = k) (rev ys) = filter (\<lambda>y. rk y = k) ys"
proof (induction ys)
  case Nil
  show ?case by simp
next
  case (Cons y ys)
  have "rk y = k \<Longrightarrow> filter (\<lambda>y. rk y = k) ys = []"
    using Cons.prems by (auto simp: filter_empty_conv)
  with Cons show ?case by auto
qed

lemma sorted_rev_strict:
  fixes rk :: "'a \<Rightarrow> 'r::linorder"
  shows "sorted_wrt (\<lambda>a b. rk b < rk a) ys \<Longrightarrow> sorted (map rk (rev ys))"
proof -
  assume "sorted_wrt (\<lambda>a b. rk b < rk a) ys"
  then have "sorted_wrt (\<lambda>a b. rk a < rk b) (rev ys)" by (simp add: sorted_wrt_rev)
  then have "sorted_wrt (\<lambda>a b. rk a \<le> rk b) (rev ys)"
    by (rule sorted_wrt_mono_rel [rotated]) simp
  then show ?thesis by (simp add: sorted_wrt_map)
qed

lemma bsearch_spec:
  fixes rk :: "'a \<Rightarrow> 'r::linorder"
  assumes "sorted (map rk xs)"
    and "\<forall>y \<in> set xs. lt pivot y = (rk pivot < rk y)"
    and "l \<le> r" "r \<le> length xs"
    and "\<forall>i < l. rk (xs ! i) \<le> rk pivot"
    and "\<forall>i. r \<le> i \<and> i < length xs \<longrightarrow> rk pivot < rk (xs ! i)"
  shows "bsearch lt pivot xs l r \<le> length xs
       \<and> (\<forall>i < bsearch lt pivot xs l r. rk (xs ! i) \<le> rk pivot)
       \<and> (\<forall>i. bsearch lt pivot xs l r \<le> i \<and> i < length xs \<longrightarrow> rk pivot < rk (xs ! i))"
  using assms
proof (induction lt pivot xs l r rule: bsearch.induct)
  case (1 lt pivot xs l r)
  show ?case
  proof (cases "l < r")
    case False
    with "1.prems" have "l = r" by simp
    with "1.prems" False show ?thesis by (simp add: bsearch.simps [of lt pivot xs r r])
  next
    case True
    define p where "p = l + (r - l) div 2"
    have p: "l \<le> p" "p < r" using True by (simp_all add: p_def) 
    have plen: "p < length xs" using p "1.prems"(4) by simp
    show ?thesis
    proof (cases "lt pivot (xs ! p)")
      case lt: True
      have less: "rk pivot < rk (xs ! p)"
        using lt "1.prems"(2) plen by (metis nth_mem)
      have up: "\<forall>i. p \<le> i \<and> i < length xs \<longrightarrow> rk pivot < rk (xs ! i)"
      proof (intro allI impI)
        fix i assume i: "p \<le> i \<and> i < length xs"
        then have "rk (xs ! p) \<le> rk (xs ! i)"
          using "1.prems"(1) by (simp add: sorted_iff_nth_mono)
        with less show "rk pivot < rk (xs ! i)" by simp
      qed
      have eq: "bsearch lt pivot xs l r = bsearch lt pivot xs l p"
        using True lt by (subst bsearch.simps) (simp add: p_def Let_def)
      have pl: "p \<le> length xs" using plen by simp
      from "1.IH"(1) [OF True p_def lt "1.prems"(1) "1.prems"(2) p(1) pl "1.prems"(5) up]
      show ?thesis unfolding eq .
    next
      case nlt: False
      have le: "rk (xs ! p) \<le> rk pivot"
        using nlt "1.prems"(2) plen by (metis nth_mem not_less)
      have low: "\<forall>i < p + 1. rk (xs ! i) \<le> rk pivot"
      proof (intro allI impI)
        fix i assume i: "i < p + 1"
        then have "rk (xs ! i) \<le> rk (xs ! p)"
          using "1.prems"(1) plen by (simp add: sorted_iff_nth_mono)
        with le show "rk (xs ! i) \<le> rk pivot" by simp
      qed
      have eq: "bsearch lt pivot xs l r = bsearch lt pivot xs (p + 1) r"
        using True nlt by (subst bsearch.simps) (simp add: p_def Let_def)
      have "p + 1 \<le> r" using p by simp
      from "1.IH"(2) [OF True p_def nlt "1.prems"(1) "1.prems"(2) this "1.prems"(4) low "1.prems"(6)]
      show ?thesis unfolding eq .
    qed
  qed
qed

lemma insert_sorted:
  fixes rk :: "'a \<Rightarrow> 'r::linorder"
  assumes "sorted (map rk xs)" "j \<le> length xs"
    and "\<forall>i < j. rk (xs ! i) \<le> rk pivot"
    and "\<forall>i. j \<le> i \<and> i < length xs \<longrightarrow> rk pivot < rk (xs ! i)"
  shows "sorted (map rk (take j xs @ pivot # drop j xs))"
proof -
  have lo: "\<forall>a \<in> set (take j xs). rk a \<le> rk pivot"
    using assms(2,3) by (auto simp: in_set_conv_nth)
  have hi: "\<forall>b \<in> set (drop j xs). rk pivot < rk b"
    using assms(2,4) by (auto simp: in_set_conv_nth)
  have s1: "sorted (map rk (take j xs))" and s2: "sorted (map rk (drop j xs))"
    using assms(1) by (simp_all add: sorted_wrt_take sorted_wrt_drop flip: take_map drop_map)
  have cross: "\<forall>a \<in> set (take j xs). \<forall>b \<in> set (drop j xs). rk a \<le> rk b"
    using lo hi by fastforce
  show ?thesis
    using lo hi s1 s2 cross by (auto simp: sorted_append less_imp_le)
qed

lemma insert_filter:
  fixes rk :: "'a \<Rightarrow> 'r::linorder"
  assumes "j \<le> length xs"
    and "\<forall>i. j \<le> i \<and> i < length xs \<longrightarrow> rk pivot < rk (xs ! i)"
  shows "filter (\<lambda>y. rk y = k) (take j xs @ pivot # drop j xs)
       = filter (\<lambda>y. rk y = k) (xs @ [pivot])"
proof -
  have hi: "\<forall>b \<in> set (drop j xs). rk pivot < rk b"
    using assms by (auto simp: in_set_conv_nth)
  have split: "filter (\<lambda>y. rk y = k) xs
      = filter (\<lambda>y. rk y = k) (take j xs) @ filter (\<lambda>y. rk y = k) (drop j xs)"
    by (metis append_take_drop_id filter_append)
  show ?thesis
  proof (cases "rk pivot = k")
    case True
    then have "filter (\<lambda>y. rk y = k) (drop j xs) = []"
      using hi by (auto simp: filter_empty_conv)
    with True split show ?thesis by simp
  next
    case False
    with split show ?thesis by simp
  qed
qed

lemma set_insert_at: "set (take j xs @ pivot # drop j xs) = insert pivot (set xs)"
proof -
  have "set (take j xs) \<union> set (drop j xs) = set xs"
    by (metis append_take_drop_id set_append)
  then show ?thesis by auto
qed

lemma set_binarysort: "set (binarysort lt pre rest) = set pre \<union> set rest"
proof (induction rest arbitrary: pre)
  case Nil
  show ?case by simp
next
  case (Cons pivot rest)
  have "set (binarysort lt pre (pivot # rest))
      = set (take (bsearch lt pivot pre 0 (length pre)) pre
             @ pivot # drop (bsearch lt pivot pre 0 (length pre)) pre) \<union> set rest"
    by (simp only: binarysort.simps Let_def Cons.IH)
  also have "\<dots> = insert pivot (set pre) \<union> set rest"
    by (simp only: set_insert_at)
  finally show ?case by simp
qed

lemma binarysort_sorted_stable:
  fixes rk :: "'a \<Rightarrow> 'r::linorder"
  assumes "sorted (map rk pre)"
    and "\<forall>x \<in> set (pre @ rest). \<forall>y \<in> set (pre @ rest). lt x y = (rk x < rk y)"
  shows "sorted (map rk (binarysort lt pre rest))
       \<and> filter (\<lambda>y. rk y = k) (binarysort lt pre rest) = filter (\<lambda>y. rk y = k) (pre @ rest)"
  using assms
proof (induction rest arbitrary: pre)
  case Nil
  then show ?case by simp
next
  case (Cons pivot rest)
  define j where "j = bsearch lt pivot pre 0 (length pre)"
  define pre' where "pre' = take j pre @ pivot # drop j pre"
  have H: "\<forall>y \<in> set pre. lt pivot y = (rk pivot < rk y)"
    using Cons.prems(2) by simp
  have spec: "j \<le> length pre
       \<and> (\<forall>i < j. rk (pre ! i) \<le> rk pivot)
       \<and> (\<forall>i. j \<le> i \<and> i < length pre \<longrightarrow> rk pivot < rk (pre ! i))"
    unfolding j_def
    by (rule bsearch_spec [where rk = rk and xs = pre and lt = lt and pivot = pivot
          and l = 0 and r = "length pre", OF Cons.prems(1) H]) auto
  have s: "sorted (map rk pre')"
    unfolding pre'_def using spec by (intro insert_sorted [OF Cons.prems(1)]) simp_all
  have f: "filter (\<lambda>y. rk y = k) pre' = filter (\<lambda>y. rk y = k) (pre @ [pivot])"
    unfolding pre'_def using spec by (intro insert_filter) simp_all
  have sp: "set pre' = insert pivot (set pre)"
    unfolding pre'_def by (rule set_insert_at)
  have se: "set (pre' @ rest) = set (pre @ pivot # rest)"
    by (simp only: set_append sp) auto
  have H': "\<forall>x \<in> set (pre' @ rest). \<forall>y \<in> set (pre' @ rest). lt x y = (rk x < rk y)"
    using Cons.prems(2) unfolding se .
  have step: "binarysort lt pre (pivot # rest) = binarysort lt pre' rest"
    by (simp add: Let_def j_def pre'_def)
  have "filter (\<lambda>y. rk y = k) (pre' @ rest)
      = filter (\<lambda>y. rk y = k) (pre @ [pivot]) @ filter (\<lambda>y. rk y = k) rest"
    by (simp only: filter_append f)
  also have "\<dots> = filter (\<lambda>y. rk y = k) (pre @ pivot # rest)"
    by simp
  finally have "filter (\<lambda>y. rk y = k) (pre' @ rest)
      = filter (\<lambda>y. rk y = k) (pre @ pivot # rest)" .
  with Cons.IH [OF s H'] show ?case
    unfolding step by (simp only:)
qed

lemma set_listsort: "set (listsort lt xs) = set xs"
proof (cases xs)
  case Nil
  then show ?thesis by simp
next
  case (Cons a ys)
  note xs = Cons
  show ?thesis
  proof (cases ys)
    case Nil
    with xs show ?thesis by simp
  next
    case (Cons b zs)
    obtain run rest where r: "desc_run lt b zs = (run, rest)" by (cases "desc_run lt b zs")
    obtain run' rest' where r': "asc_run lt b zs = (run', rest')" by (cases "asc_run lt b zs")
    have "zs = run @ rest" "zs = run' @ rest'"
      using desc_run_append [OF r] asc_run_append [OF r'] by simp_all
    then have "set zs = set run \<union> set rest" "set zs = set run' \<union> set rest'"
      by (metis set_append)+
    then show ?thesis
      using r r' by (auto simp: xs Cons set_binarysort)
  qed
qed

lemma listsort_sorted_stable:
  fixes rk :: "'a \<Rightarrow> 'r::linorder"
  assumes "\<forall>x \<in> set xs. \<forall>y \<in> set xs. lt x y = (rk x < rk y)"
  shows "sorted (map rk (listsort lt xs))
       \<and> filter (\<lambda>y. rk y = k) (listsort lt xs) = filter (\<lambda>y. rk y = k) xs"
proof (cases xs)
  case Nil
  then show ?thesis by simp
next
  case (Cons a ys)
  note xs = Cons
  show ?thesis
  proof (cases ys)
    case Nil
    with xs show ?thesis by simp
  next
    case (Cons b zs)
    show ?thesis
    proof (cases "lt b a")
      case True
      obtain run rest where r: "desc_run lt b zs = (run, rest)" by (cases "desc_run lt b zs")
      have zs: "zs = run @ rest" by (rule desc_run_append [OF r])
      have Hb: "\<forall>x \<in> set (b # zs). \<forall>y \<in> set (b # zs). lt x y = (rk x < rk y)"
        using assms xs Cons by simp
      have d: "sorted_wrt (\<lambda>a b. rk b < rk a) (b # run)" by (rule desc_run_sorted [OF Hb r])
      have "rk b < rk a" using True assms xs Cons by simp
      with d have d': "sorted_wrt (\<lambda>a b. rk b < rk a) (a # b # run)" by auto
      have s: "sorted (map rk (rev (a # b # run)))" by (rule sorted_rev_strict [OF d'])
      have f: "filter (\<lambda>y. rk y = k) (rev (a # b # run)) = filter (\<lambda>y. rk y = k) (a # b # run)"
        by (rule filter_rev_strict [OF d'])
      have H: "\<forall>x \<in> set (rev (a # b # run) @ rest). \<forall>y \<in> set (rev (a # b # run) @ rest).
                 lt x y = (rk x < rk y)"
        using assms xs Cons zs by auto
      have eq: "listsort lt xs = binarysort lt (rev (a # b # run)) rest"
        using True r xs Cons by simp
      have "filter (\<lambda>y. rk y = k) (rev (a # b # run) @ rest)
          = filter (\<lambda>y. rk y = k) (rev (a # b # run)) @ filter (\<lambda>y. rk y = k) rest"
        by (simp only: filter_append)
      also have "\<dots> = filter (\<lambda>y. rk y = k) ((a # b # run) @ rest)"
        by (simp only: f filter_append)
      also have "\<dots> = filter (\<lambda>y. rk y = k) xs"
        by (simp add: xs Cons zs)
      finally have "filter (\<lambda>y. rk y = k) (rev (a # b # run) @ rest)
          = filter (\<lambda>y. rk y = k) xs" .
      with binarysort_sorted_stable [OF s H, of k] show ?thesis
        unfolding eq by (simp only:)
    next
      case False
      obtain run rest where r: "asc_run lt b zs = (run, rest)" by (cases "asc_run lt b zs")
      have zs: "zs = run @ rest" by (rule asc_run_append [OF r])
      have Hb: "\<forall>x \<in> set (b # zs). \<forall>y \<in> set (b # zs). lt x y = (rk x < rk y)"
        using assms xs Cons by simp
      have d: "sorted (map rk (b # run))" by (rule asc_run_sorted [OF Hb r])
      have "rk a \<le> rk b" using False assms xs Cons by auto
      with d have s: "sorted (map rk (a # b # run))" by auto
      have H: "\<forall>x \<in> set ((a # b # run) @ rest). \<forall>y \<in> set ((a # b # run) @ rest).
                 lt x y = (rk x < rk y)"
        using assms xs Cons zs by auto
      have eq: "listsort lt xs = binarysort lt (a # b # run) rest"
        using False r xs Cons by simp
      from binarysort_sorted_stable [OF s H, of k] show ?thesis
        unfolding eq by (simp add: xs Cons zs)
    qed
  qed
qed

text \<open>
  The same for keys that are floats other than NaN, which \<open>rank\<close> orders.
\<close>

lemma float_lt_rank: "a \<noteq> NaN \<Longrightarrow> b \<noteq> NaN \<Longrightarrow> float_lt a b = (rank a < rank b)"
  by (cases a; cases b) simp_all

lemma float_le_rank: "a \<noteq> NaN \<Longrightarrow> b \<noteq> NaN \<Longrightarrow> float_le a b = (rank a \<le> rank b)"
  by (cases a; cases b) simp_all

lemma rank_eq_iff: "rank a = rank b \<longleftrightarrow> a = b"
  by (cases a; cases b) simp_all

lemma set_list_sort: "set (list_sort key r v) = set v"
  by (simp add: list_sort_def Let_def set_listsort)

lemma list_sort_Nil_iff: "list_sort key r v = [] \<longleftrightarrow> v = []"
  by (metis set_list_sort set_empty)

lemma list_sort_rank:
  assumes "\<forall>x \<in> set v. key x \<noteq> NaN"
  shows "\<forall>x \<in> set v. \<forall>y \<in> set v. float_lt (key x) (key y) = (rank (key x) < rank (key y))"
  using assms by (simp add: float_lt_rank)

lemma list_sort_stable:
  assumes "\<forall>x \<in> set v. key x \<noteq> NaN"
  shows "filter (\<lambda>y. key y = s) (list_sort key r v) = filter (\<lambda>y. key y = s) v"
proof -
  let ?lt = "\<lambda>x y. float_lt (key x) (key y)"
  let ?P = "\<lambda>y. rank (key y) = rank s"
  have P: "(\<lambda>y. key y = s) = ?P" by (simp add: rank_eq_iff)
  have H: "\<forall>x \<in> set v. \<forall>y \<in> set v. ?lt x y = (rank (key x) < rank (key y))"
    by (rule list_sort_rank [OF assms])
  have Hr: "\<forall>x \<in> set (rev v). \<forall>y \<in> set (rev v). ?lt x y = (rank (key x) < rank (key y))"
    using H by simp
  have a: "filter ?P (listsort ?lt v) = filter ?P v"
    using listsort_sorted_stable [where rk = "\<lambda>x. rank (key x)", OF H] by blast
  have "filter ?P (listsort ?lt (rev v)) = filter ?P (rev v)"
    using listsort_sorted_stable [where rk = "\<lambda>x. rank (key x)", OF Hr] by blast
  then have b: "filter ?P (rev (listsort ?lt (rev v))) = filter ?P v"
    by (simp flip: rev_filter)
  show ?thesis
    unfolding P using a b by (simp add: list_sort_def Let_def)
qed

lemma list_sort_sorted:
  assumes "\<forall>x \<in> set v. key x \<noteq> NaN" "\<not> r"
  shows "sorted_wrt float_le (map key (list_sort key r v))"
proof -
  let ?lt = "\<lambda>x y. float_lt (key x) (key y)"
  have H: "\<forall>x \<in> set v. \<forall>y \<in> set v. ?lt x y = (rank (key x) < rank (key y))"
    by (rule list_sort_rank [OF assms(1)])
  have "sorted (map (\<lambda>x. rank (key x)) (listsort ?lt v))"
    using listsort_sorted_stable [where rk = "\<lambda>x. rank (key x)", OF H] by blast
  then have "sorted_wrt (\<lambda>a b. rank (key a) \<le> rank (key b)) (listsort ?lt v)"
    by (simp add: sorted_wrt_map)
  then have "sorted_wrt (\<lambda>a b. float_le (key a) (key b)) (listsort ?lt v)"
    by (rule sorted_wrt_mono_rel [rotated]) (simp add: set_listsort float_le_rank assms(1))
  then show ?thesis
    using assms(2) by (simp add: list_sort_def Let_def sorted_wrt_map)
qed

lemma list_sort_sorted_rev:
  assumes "\<forall>x \<in> set v. key x \<noteq> NaN" "r"
  shows "sorted_wrt (\<lambda>a b. float_le b a) (map key (list_sort key r v))"
proof -
  let ?lt = "\<lambda>x y. float_lt (key x) (key y)"
  have H: "\<forall>x \<in> set (rev v). \<forall>y \<in> set (rev v). ?lt x y = (rank (key x) < rank (key y))"
    using list_sort_rank [OF assms(1)] by simp
  have "sorted (map (\<lambda>x. rank (key x)) (listsort ?lt (rev v)))"
    using listsort_sorted_stable [where rk = "\<lambda>x. rank (key x)", OF H] by blast
  then have "sorted_wrt (\<lambda>a b. rank (key a) \<le> rank (key b)) (listsort ?lt (rev v))"
    by (simp add: sorted_wrt_map)
  then have "sorted_wrt (\<lambda>a b. float_le (key a) (key b)) (listsort ?lt (rev v))"
    by (rule sorted_wrt_mono_rel [rotated]) (simp add: set_listsort float_le_rank assms(1))
  then have "sorted_wrt (\<lambda>a b. float_le (key b) (key a)) (rev (listsort ?lt (rev v)))"
    by (simp add: sorted_wrt_rev)
  then show ?thesis
    using assms(2) by (simp add: list_sort_def Let_def sorted_wrt_map)
qed


lemma unique_loop_heads:
  "\<forall>(k, v) \<in> set u. v \<noteq> [] \<Longrightarrow>
   unique_loop u r acc = Inr (acc @ map (\<lambda>(k, v). hd (list_sort strength r v)) u)"
proof (induction u arbitrary: acc)
  case Nil
  show ?case by simp
next
  case (Cons kv u)
  obtain k v where kv: "kv = (k, v)" by (cases kv)
  with Cons.prems have "v \<noteq> []" by simp
  then obtain x xs where sv: "list_sort strength r v = x # xs"
    by (cases "list_sort strength r v") (simp_all add: list_sort_Nil_iff)
  from Cons.prems have "\<forall>(k, v) \<in> set u. v \<noteq> []" by simp
  from Cons.IH [OF this] show ?case by (simp add: kv sv)
qed


lemma find_filter_conj:
  "List.find P (filter Q xs) = List.find (\<lambda>x. Q x \<and> P x) xs"
  by (induction xs) simp_all

lemma find_hd_filter:
  "filter P xs = x # ys \<Longrightarrow> List.find P xs = Some x"
  by (induction xs) (auto split: if_splits)

text \<open>
  The head of a sorted group without NaN: it is the first token of the group, in
  the order of the group, among those with its strength, and its strength is the
  least one (the greatest one when the sort is reversed).
\<close>

lemma hd_list_sort_first:
  assumes "g \<noteq> []" "\<forall>x \<in> set g. k x \<noteq> NaN"
  shows "List.find (\<lambda>q. k q = k (hd (list_sort k r g))) g = Some (hd (list_sort k r g))"
proof -
  obtain x xs where s: "list_sort k r g = x # xs"
    using assms(1) by (cases "list_sort k r g") (simp_all add: list_sort_Nil_iff)
  have "filter (\<lambda>q. k q = k x) g = filter (\<lambda>q. k q = k x) (x # xs)"
    using list_sort_stable [OF assms(2), of "k x" r] by (simp add: s)
  then have "filter (\<lambda>q. k q = k x) g = x # filter (\<lambda>q. k q = k x) xs" by simp
  then show ?thesis by (simp add: s find_hd_filter)
qed

lemma float_le_refl: "a \<noteq> NaN \<Longrightarrow> float_le a a"
  by (cases a) simp_all

lemma hd_list_sort_min:
  assumes "g \<noteq> []" "\<forall>x \<in> set g. k x \<noteq> NaN" "\<not> r" "q \<in> set g"
  shows "float_le (k (hd (list_sort k r g))) (k q)"
proof -
  obtain x xs where s: "list_sort k r g = x # xs"
    using assms(1) by (cases "list_sort k r g") (simp_all add: list_sort_Nil_iff)
  have "sorted_wrt float_le (map k (x # xs))"
    using list_sort_sorted [OF assms(2,3)] by (simp add: s)
  moreover have mem: "q \<in> set (x # xs)" "x \<in> set g"
    using assms(4) set_list_sort [of k r g] by (auto simp: s)
  moreover have "float_le (k x) (k x)"
    using mem(2) assms(2) by (simp add: float_le_refl)
  ultimately show ?thesis by (auto simp: s)
qed

lemma hd_list_sort_max:
  assumes "g \<noteq> []" "\<forall>x \<in> set g. k x \<noteq> NaN" "r" "q \<in> set g"
  shows "float_le (k q) (k (hd (list_sort k r g)))"
proof -
  obtain x xs where s: "list_sort k r g = x # xs"
    using assms(1) by (cases "list_sort k r g") (simp_all add: list_sort_Nil_iff)
  have "sorted_wrt (\<lambda>a b. float_le b a) (map k (x # xs))"
    using list_sort_sorted_rev [OF assms(2,3)] by (simp add: s)
  moreover have mem: "q \<in> set (x # xs)" "x \<in> set g"
    using assms(4) set_list_sort [of k r g] by (auto simp: s)
  moreover have "float_le (k x) (k x)"
    using mem(2) assms(2) by (simp add: float_le_refl)
  ultimately show ?thesis by (auto simp: s)
qed

lemma hd_list_sort_mem: "g \<noteq> [] \<Longrightarrow> hd (list_sort k r g) \<in> set g"
  by (metis hd_in_set list_sort_Nil_iff set_list_sort)




lemma filters_unique_heads:
  "filters_unique ps r =
     Inr (map (\<lambda>n. hd (list_sort strength r (filter (\<lambda>p. name p = n) ps)))
              (first_seen (map name ps)))"
proof -
  have "\<forall>(k, v) \<in> set (collect_same_prompt ps). v \<noteq> []"
    by (auto simp: collect_same_prompt_groups set_first_seen filter_empty_conv)
  from unique_loop_heads [OF this, of r "[]"] show ?thesis
    by (simp add: filters_unique_def) (simp add: collect_same_prompt_groups comp_def)
qed

text \<open>The doctests of \<open>unique\<close> in \<open>filters.py\<close>.\<close>

lemma filters_unique_doctest:
  "filters_unique [\<lparr>name = ''white hair'', strength = Fin 1.2\<rparr>,
                   \<lparr>name = ''white hair'', strength = Fin 1.0\<rparr>] False
     = Inr [\<lparr>name = ''white hair'', strength = Fin 1.0\<rparr>]"
  "filters_unique [\<lparr>name = ''white hair'', strength = Fin 1.2\<rparr>,
                   \<lparr>name = ''white hair'', strength = Fin 1.0\<rparr>] True
     = Inr [\<lparr>name = ''white hair'', strength = Fin 1.2\<rparr>]"
  by (simp_all add: filters_unique_def collect_same_prompt_def collect_step_def list_sort_def)





text \<open>
  C6, as the code has it. Unique returns (it never raises) one token per distinct
  name, in the order in which the names are first seen, each a token of the input.
  When no token of a name has a NaN strength, the token kept for that name has the
  least strength among the tokens of that name (the greatest when the reverse flag
  is set), and among the tokens of that name and that strength it is the first
  one of the input.
\<close>

theorem filters_unique_first_extreme:
  "\<exists>out. filters_unique prompts reversed = Inr out
     \<and> map name out = first_seen (map name prompts)
     \<and> distinct (map name out)
     \<and> set (map name out) = set (map name prompts)
     \<and> (\<forall>t \<in> set out.
          t \<in> set prompts
          \<and> ((\<forall>q \<in> set prompts. name q = name t \<longrightarrow> strength q \<noteq> NaN) \<longrightarrow>
               (\<forall>q \<in> set prompts. name q = name t \<longrightarrow>
                  (if reversed then float_le (strength q) (strength t)
                   else float_le (strength t) (strength q)))
               \<and> List.find (\<lambda>q. name q = name t \<and> strength q = strength t) prompts
                   = Some t))"
proof -
  let ?G = "\<lambda>n. filter (\<lambda>p. name p = n) prompts"
  let ?h = "\<lambda>n. hd (list_sort strength reversed (?G n))"
  let ?ns = "first_seen (map name prompts)"
  let ?out = "map ?h ?ns"
  have ne: "?G n \<noteq> []" if "n \<in> set ?ns" for n
    using that by (auto simp: set_first_seen filter_empty_conv)
  have mem: "?h n \<in> set (?G n)" if "n \<in> set ?ns" for n
    using ne [OF that] by (rule hd_list_sort_mem)
  have nm: "name (?h n) = n" if "n \<in> set ?ns" for n
    using mem [OF that] by simp
  have names: "map name ?out = ?ns"
    by (simp add: comp_def nm cong: map_cong)
  have each: "t \<in> set prompts
          \<and> ((\<forall>q \<in> set prompts. name q = name t \<longrightarrow> strength q \<noteq> NaN) \<longrightarrow>
               (\<forall>q \<in> set prompts. name q = name t \<longrightarrow>
                  (if reversed then float_le (strength q) (strength t)
                   else float_le (strength t) (strength q)))
               \<and> List.find (\<lambda>q. name q = name t \<and> strength q = strength t) prompts
                   = Some t)"
    if "t \<in> set ?out" for t
  proof -
    from that obtain n where n: "n \<in> set ?ns" and t: "t = ?h n" by auto
    have tn: "name t = n" using nm [OF n] t by simp
    have tin: "t \<in> set prompts" using mem [OF n] t by simp
    have ext: "(\<forall>q \<in> set prompts. name q = name t \<longrightarrow>
                  (if reversed then float_le (strength q) (strength t)
                   else float_le (strength t) (strength q)))
               \<and> List.find (\<lambda>q. name q = name t \<and> strength q = strength t) prompts
                   = Some t"
      if nonan: "\<forall>q \<in> set prompts. name q = name t \<longrightarrow> strength q \<noteq> NaN"
    proof -
      have nn: "\<forall>x \<in> set (?G n). strength x \<noteq> NaN"
        using nonan tn by simp
      have "if reversed then float_le (strength q) (strength t)
            else float_le (strength t) (strength q)"
        if "q \<in> set prompts" "name q = name t" for q
      proof -
        have "q \<in> set (?G n)" using that tn by simp
        then show ?thesis
          using hd_list_sort_min [OF ne [OF n] nn, of reversed q]
                hd_list_sort_max [OF ne [OF n] nn, of reversed q]
          by (simp add: t)
      qed
      moreover have
        "List.find (\<lambda>q. name q = name t \<and> strength q = strength t) prompts = Some t"
        using hd_list_sort_first [OF ne [OF n] nn, of reversed]
        by (simp add: find_filter_conj tn) (simp add: t)
      ultimately show ?thesis by blast
    qed
    from tin ext show ?thesis by blast
  qed
  have "filters_unique prompts reversed = Inr ?out"
    by (rule filters_unique_heads)
  moreover have "distinct (map name ?out)"
    by (simp only: names distinct_first_seen)
  moreover have "set (map name ?out) = set (map name prompts)"
    by (simp only: names set_first_seen)
  ultimately show ?thesis
    using names each by blast
qed

text \<open>
  The theorem at work on a list with ties and no NaN: of the two tokens named \<open>a\<close>
  with the least strength, the one that comes first is kept.
\<close>

theorem filters_unique_first_extreme_witness:
  "NaN \<notin> set (map strength
               [\<lparr>name = ''a'', strength = Fin 1, \<dots> = (1::nat)\<rparr>,
                \<lparr>name = ''b'', strength = Fin 1, \<dots> = 2\<rparr>,
                \<lparr>name = ''a'', strength = Fin 1, \<dots> = 3\<rparr>,
                \<lparr>name = ''a'', strength = Fin 0, \<dots> = 4\<rparr>,
                \<lparr>name = ''a'', strength = Fin 0, \<dots> = 5\<rparr>])
   \<and> (\<exists>out. filters_unique
        [\<lparr>name = ''a'', strength = Fin 1, \<dots> = (1::nat)\<rparr>,
         \<lparr>name = ''b'', strength = Fin 1, \<dots> = 2\<rparr>,
         \<lparr>name = ''a'', strength = Fin 1, \<dots> = 3\<rparr>,
         \<lparr>name = ''a'', strength = Fin 0, \<dots> = 4\<rparr>,
         \<lparr>name = ''a'', strength = Fin 0, \<dots> = 5\<rparr>] False = Inr out
     \<and> out = [\<lparr>name = ''a'', strength = Fin 0, \<dots> = 4\<rparr>, \<lparr>name = ''b'', strength = Fin 1, \<dots> = 2\<rparr>]
     \<and> (\<forall>t \<in> set out.
           List.find (\<lambda>q. name q = name t \<and> strength q = strength t)
             [\<lparr>name = ''a'', strength = Fin 1, \<dots> = (1::nat)\<rparr>,
              \<lparr>name = ''b'', strength = Fin 1, \<dots> = 2\<rparr>,
              \<lparr>name = ''a'', strength = Fin 1, \<dots> = 3\<rparr>,
              \<lparr>name = ''a'', strength = Fin 0, \<dots> = 4\<rparr>,
              \<lparr>name = ''a'', strength = Fin 0, \<dots> = 5\<rparr>] = Some t))"
  using filters_unique_first_extreme
    [of "[\<lparr>name = ''a'', strength = Fin 1, \<dots> = (1::nat)\<rparr>,
          \<lparr>name = ''b'', strength = Fin 1, \<dots> = 2\<rparr>,
          \<lparr>name = ''a'', strength = Fin 1, \<dots> = 3\<rparr>,
          \<lparr>name = ''a'', strength = Fin 0, \<dots> = 4\<rparr>,
          \<lparr>name = ''a'', strength = Fin 0, \<dots> = 5\<rparr>]" False]
  by (simp add: filters_unique_def collect_same_prompt_def collect_step_def list_sort_def
      first_seen_def bsearch.simps)

text \<open>
  The claim as stated, for every token sequence, fails on a group with a NaN
  strength: the sort leaves \<open>[2.0, nan, 1.0]\<close> as it is, and the token kept is the
  one of strength \<open>2.0\<close>, although a token of the same name has the strength \<open>1.0\<close>.
\<close>

theorem filters_unique_nan_keeps_greater:
  "filters_unique [\<lparr>name = ''a'', strength = Fin 2.0\<rparr>, \<lparr>name = ''a'', strength = NaN\<rparr>,
                   \<lparr>name = ''a'', strength = Fin 1.0\<rparr>] False
   = Inr [\<lparr>name = ''a'', strength = Fin 2.0\<rparr>]
   \<and> float_lt (Fin 1.0) (Fin 2.0)"
  by (simp add: filters_unique_def collect_same_prompt_def collect_step_def list_sort_def)

section \<open>Properties of Commands.get_pipeline\<close>

text \<open>
  A key found in a dictionary built from pairs comes from one of the pairs, and a
  closure of \<open>command_funcs\<close> never builds a rounding command.
\<close>

lemma fold_upd_Some:
  "fold (\<lambda>(k, v) m. m(k \<mapsto> v)) pairs m k = Some v \<Longrightarrow> (k, v) \<in> set pairs \<or> m k = Some v"
proof (induction pairs arbitrary: m)
  case Nil
  then show ?case by simp
next
  case (Cons kv pairs)
  obtain a b where kv: "kv = (a, b)" by (cases kv)
  from Cons.prems have "fold (\<lambda>(k, v) m. m(k \<mapsto> v)) pairs (m(a \<mapsto> b)) k = Some v"
    by (simp only: kv fold_simps prod.case)
  from Cons.IH [OF this] show ?case
    by (auto simp: kv split: if_splits)
qed

lemma dict_Some_in_set: "dict pairs k = Some v \<Longrightarrow> (k, v) \<in> set pairs"
  using fold_upd_Some [of pairs Map.empty k v] by (simp add: dict_def)

lemma command_funcs_not_RoundUp:
  "lambd \<in> set command_funcs \<Longrightarrow> class_of (lambd self) \<noteq> RoundUpCommand_class"
  by (auto simp: command_funcs_def)

lemma command_map_not_RoundUp:
  "dict (zip ids command_funcs) f = Some lambd \<Longrightarrow>
   class_of (lambd self) \<noteq> RoundUpCommand_class"
proof -
  assume "dict (zip ids command_funcs) f = Some lambd"
  then have "(f, lambd) \<in> set (zip ids command_funcs)" by (rule dict_Some_in_set)
  then have "lambd \<in> set command_funcs" by (rule set_zip_rightD)
  then show ?thesis by (rule command_funcs_not_RoundUp)
qed

text \<open>
  The pipeline built for the filter \<open>mask\<close> with the default settings: the
  rounding command comes first, the filter command after it.
\<close>

lemma get_pipeline_sample_mask:
  "get_pipeline sample_command_id
     (default_commands\<lparr>filter' := Some ''mask'', mask' := [''white'']\<rparr>)
   = Inr \<lparr>pipeline_cls = PromptPipelineV1,
          delimiter = \<lparr>sep_input = '','', sep_output = '', ''\<rparr>,
          commands = [RoundUpCommand 2, MaskCommand [''white''] '''']\<rparr>"
  by (simp add: get_pipeline_def Let_def RoundUpCommand_init_def append_command_def
      get_pipeline_from_def create_pipeline_def default_commands_def command_classes_def
      command_funcs_def dict_def get_delimiter_def)

text \<open>
  C1, as the code has it. In every pipeline that \<open>get_pipeline\<close> returns, the
  rounding command is the first command. With no filter selected it is the only
  one, hence also the last. With a filter selected, the command built by the
  registry entry of that filter is appended after it and is the last one, and
  that command is never a rounding command. Since commands run in the order of
  insertion, rounding is the first transformation to run, and the last one only
  when no filter is selected.
\<close>

theorem get_pipeline_rounding_first:
  "get_pipeline command_id self = Inr p \<Longrightarrow>
   hd (commands p) = RoundUpCommand (roundup self)
   \<and> (filter' self = None \<longrightarrow> commands p = [RoundUpCommand (roundup self)])
   \<and> (\<forall>f. filter' self = Some f \<longrightarrow>
         (\<exists>lambd. dict (zip (map command_id command_classes) command_funcs) f = Some lambd
            \<and> commands p = [RoundUpCommand (roundup self), lambd self])
         \<and> class_of (last (commands p)) \<noteq> RoundUpCommand_class)"
proof -
  assume r: "get_pipeline command_id self = Inr p"
  let ?m = "dict (zip (map command_id command_classes) command_funcs)"
  show ?thesis
  proof (cases "filter' self")
    case None
    with r show ?thesis
      by (auto simp: get_pipeline_def Let_def RoundUpCommand_init_def append_command_def
          get_pipeline_from_def create_pipeline_def split: if_splits)
  next
    case (Some f)
    with r obtain lambd where l: "?m f = Some lambd"
      and c: "commands p = [RoundUpCommand (roundup self), lambd self]"
      by (auto simp: get_pipeline_def Let_def RoundUpCommand_init_def append_command_def
          get_pipeline_from_def create_pipeline_def split: if_splits option.splits)
    have "class_of (lambd self) \<noteq> RoundUpCommand_class"
      by (rule command_map_not_RoundUp [OF l])
    with Some l c show ?thesis by simp
  qed
qed

theorem get_pipeline_rounding_first_witness:
  "get_pipeline sample_command_id
     (default_commands\<lparr>filter' := Some ''mask'', mask' := [''white'']\<rparr>)
   = Inr \<lparr>pipeline_cls = PromptPipelineV1,
          delimiter = \<lparr>sep_input = '','', sep_output = '', ''\<rparr>,
          commands = [RoundUpCommand 2, MaskCommand [''white''] '''']\<rparr>
   \<and> hd (commands \<lparr>pipeline_cls = PromptPipelineV1,
                    delimiter = \<lparr>sep_input = '','', sep_output = '', ''\<rparr>,
                    commands = [RoundUpCommand 2, MaskCommand [''white''] '''']\<rparr>)
       = RoundUpCommand
           (roundup (default_commands\<lparr>filter' := Some ''mask'', mask' := [''white'']\<rparr>))
   \<and> class_of (last (commands \<lparr>pipeline_cls = PromptPipelineV1,
                    delimiter = \<lparr>sep_input = '','', sep_output = '', ''\<rparr>,
                    commands = [RoundUpCommand 2, MaskCommand [''white''] '''']\<rparr>))
       \<noteq> RoundUpCommand_class"
proof -
  let ?c = "default_commands\<lparr>filter' := Some ''mask'', mask' := [''white'']\<rparr>"
  have f: "filter' ?c = Some ''mask''" by simp
  from get_pipeline_rounding_first [OF get_pipeline_sample_mask] f
  show ?thesis
    by (simp only: get_pipeline_sample_mask) blast
qed

text \<open>
  The claim as stated, that the rounding command is appended last, after the
  filter command, fails for the filter \<open>mask\<close>: the last command of the pipeline
  is the mask command.
\<close>

theorem get_pipeline_rounding_not_last:
  "get_pipeline sample_command_id
     (default_commands\<lparr>filter' := Some ''mask'', mask' := [''white'']\<rparr>)
   = Inr \<lparr>pipeline_cls = PromptPipelineV1,
          delimiter = \<lparr>sep_input = '','', sep_output = '', ''\<rparr>,
          commands = [RoundUpCommand 2, MaskCommand [''white''] '''']\<rparr>
   \<and> last [RoundUpCommand 2, MaskCommand [''white''] ''''] \<noteq> RoundUpCommand 2"
  by (simp add: get_pipeline_sample_mask)

text \<open>
  The registry \<open>command_map\<close> zips the nine identifiers of \<open>command_classes\<close>
  with the eight closures of \<open>command_funcs\<close>, which has no entry for
  \<open>RoundUpCommand\<close>. From the fifth identifier on, each identifier gets the
  closure of the next class, and the last identifier gets none.
\<close>

lemma command_map_misaligned:
  assumes "distinct (map command_id command_classes)"
  shows "dict (zip (map command_id command_classes) command_funcs) (command_id UniqueCommand_class) = None"
    and "\<exists>lambd. dict (zip (map command_id command_classes) command_funcs) (command_id SortCommand_class) = Some lambd
          \<and> (\<forall>self. class_of (lambd self) = UniqueCommand_class)"
  using assms
  by (auto simp: command_classes_def command_funcs_def dict_def)

lemma get_pipeline_sort_gives_unique:
  "get_pipeline sample_command_id (default_commands\<lparr>filter' := Some ''sort''\<rparr>)
   = Inr \<lparr>pipeline_cls = PromptPipelineV1,
          delimiter = \<lparr>sep_input = '','', sep_output = '', ''\<rparr>,
          commands = [RoundUpCommand 2, UniqueCommand False]\<rparr>"
  by (simp add: get_pipeline_def Let_def RoundUpCommand_init_def append_command_def
      get_pipeline_from_def create_pipeline_def default_commands_def command_classes_def
      command_funcs_def dict_def get_delimiter_def)

text \<open>
  C4. Selecting a recognized filter is to make \<open>get_pipeline\<close> append a command of
  the class of that identifier, the lookup never failing. For the identifier of
  \<open>UniqueCommand\<close> the lookup \<open>command_map[self.filter]\<close> raises \<open>KeyError\<close>.
\<close>

theorem get_pipeline_unique_KeyError:
  "get_pipeline sample_command_id (default_commands\<lparr>filter' := Some ''unique''\<rparr>)
   = Inl (KeyError ''unique'')"
  by (simp add: get_pipeline_def Let_def RoundUpCommand_init_def append_command_def
      get_pipeline_from_def create_pipeline_def default_commands_def command_classes_def
      command_funcs_def dict_def get_delimiter_def)

text \<open>
  C5. When the parser V2 is selected together with a filter whose identifier is
  one of those of \<open>command_classes\<close>, \<open>get_pipeline\<close> raises
  \<open>NotImplementedError\<close>: no pipeline is returned, so nothing is parsed and no
  command runs.
\<close>

theorem get_pipeline_v2_filter_rejected:
  "use_parser_v2 self \<Longrightarrow> filter' self = Some f
   \<Longrightarrow> f \<in> set (map command_id command_classes)
   \<Longrightarrow> get_pipeline command_id self = Inl (NotImplementedError (Some f))"
  by (simp add: get_pipeline_def Let_def)

theorem get_pipeline_v2_filter_rejected_witness:
  "use_parser_v2 (default_commands\<lparr>filter' := Some ''mask'', use_parser_v2 := True\<rparr>)
   \<and> filter' (default_commands\<lparr>filter' := Some ''mask'', use_parser_v2 := True\<rparr>) = Some ''mask''
   \<and> ''mask'' \<in> set (map sample_command_id command_classes)
   \<and> get_pipeline sample_command_id (default_commands\<lparr>filter' := Some ''mask'', use_parser_v2 := True\<rparr>)
       = Inl (NotImplementedError (Some ''mask''))"
proof -
  let ?c = "default_commands\<lparr>filter' := Some ''mask'', use_parser_v2 := True\<rparr>"
  have a: "use_parser_v2 ?c" by simp
  have b: "filter' ?c = Some ''mask''" by simp
  have c: "''mask'' \<in> set (map sample_command_id command_classes)"
    by (simp add: command_classes_def)
  from get_pipeline_v2_filter_rejected [OF a b c] a b c show ?thesis by simp
qed

text \<open>
  C8. With a negative rounding precision \<open>get_pipeline\<close> returns no pipeline, so
  no token is processed: the constructor of the rounding command, called before
  the pipeline is returned, rejects it with a configuration error (when the
  parser V2 is selected with a filter, the error of that combination is raised
  first).
\<close>

theorem get_pipeline_negative_roundup_rejected:
  "roundup self < 0 \<Longrightarrow>
   (\<exists>e. get_pipeline command_id self = Inl e \<and>
     (e = ConfigurationError \<or> (use_parser_v2 self \<and> e = NotImplementedError (filter' self))))
   \<and> (\<not> use_parser_v2 self \<longrightarrow> get_pipeline command_id self = Inl ConfigurationError)"
  by (simp add: get_pipeline_def Let_def RoundUpCommand_init_def)

theorem get_pipeline_negative_roundup_rejected_witness:
  "roundup (default_commands\<lparr>roundup := - 1, filter' := Some ''sort''\<rparr>) < 0
   \<and> get_pipeline sample_command_id (default_commands\<lparr>roundup := - 1, filter' := Some ''sort''\<rparr>)
       = Inl ConfigurationError"
proof -
  let ?c = "default_commands\<lparr>roundup := - 1, filter' := Some ''sort''\<rparr>"
  have a: "roundup ?c < 0" by simp
  have b: "\<not> use_parser_v2 ?c" by (simp add: default_commands_def)
  from get_pipeline_negative_roundup_rejected [OF a, of sample_command_id] a b
  show ?thesis by simp
qed

section \<open>Properties of app\<close>

text \<open>
  C10. However the body of the \<open>try\<close> block ends, \<open>app\<close> ends with
  \<open>SystemExit(1)\<close>, raised by \<open>sys.exit(1)\<close> in its \<open>finally\<close> clause: also when
  the body ends normally. An exception deriving from \<open>Exception\<close> is caught and
  logged as \<open>error: ...\<close>; nothing else is logged.
\<close>

theorem app_always_exits_1:
  "raised (app try_body) = Some (SystemExit 1)
   \<and> logged (app try_body) =
       logged try_body @ (case raised try_body of
                            Some (Exception msg) \<Rightarrow> [''error: '' @ msg]
                          | _ \<Rightarrow> [])"
  by (simp add: app_def finally_sys_exit_def split: option.splits exc.splits)

end
